theory Spec2Isabelle
  imports Main "HOL-Library.AList"
begin

section \<open>Text\<close>

text \<open>
  Query text, page contents and console lines are \<open>string\<close>s of 8-bit characters. The
  literals that decide a branch of the program (\<open>POL\<close>, \<open>policy_id: \<close>, \<open>exit\<close>,
  \<open>quit\<close>) are ASCII, and on ASCII text the functions below are Python's \<open>str.upper\<close>,
  \<open>str.lower\<close> and the \<open>\d\<close> class of \<open>re\<close>. In the model every other character is
  left alone by the case mappings and is not a digit; Python's case mappings of non-ASCII
  letters and the decimal digits of other scripts, which \<open>\d\<close> accepts too, are not
  modelled.
\<close>

definition ascii_lowercase :: string where
  "ascii_lowercase = ''abcdefghijklmnopqrstuvwxyz''"

definition ascii_uppercase :: string where
  "ascii_uppercase = ''ABCDEFGHIJKLMNOPQRSTUVWXYZ''"

definition upper_char :: "char \<Rightarrow> char" where
  "upper_char c =
     (case map_of (zip ascii_lowercase ascii_uppercase) c of Some u \<Rightarrow> u | None \<Rightarrow> c)"

definition lower_char :: "char \<Rightarrow> char" where
  "lower_char c =
     (case map_of (zip ascii_uppercase ascii_lowercase) c of Some l \<Rightarrow> l | None \<Rightarrow> c)"

definition upper :: "string \<Rightarrow> string" where
  "upper s = map upper_char s"

definition lower :: "string \<Rightarrow> string" where
  "lower s = map lower_char s"

definition is_digit :: "char \<Rightarrow> bool" where
  "is_digit c = (c \<in> set ''0123456789'')"


section \<open>The two regular expressions of utils.py\<close>

text \<open>
  \<open>re.search\<close> returns the leftmost match. \<open>POL\d{3}\<close> has a fixed length of six, so
  the match at a position is decided by the six characters there: the literal \<open>POL\<close>,
  then three characters, each a digit. \<open>match_POL_d3\<close> says whether the pattern
  matches at the start of the text.
\<close>

definition match_POL_d3 :: "string \<Rightarrow> bool" where
  "match_POL_d3 s =
     (take 3 s = ''POL'' \<and> length (take 3 (drop 3 s)) = 3 \<and> list_all is_digit (take 3 (drop 3 s)))"

text \<open>\<open>re.search(r"POL\d{3}", s)\<close>, then \<open>group(0)\<close>; \<open>None\<close> when there is no match.\<close>

fun search_POL_d3 :: "string \<Rightarrow> string option" where
  "search_POL_d3 [] = None"
| "search_POL_d3 (c # cs) =
     (if match_POL_d3 (c # cs) then Some (take 6 (c # cs)) else search_POL_d3 cs)"

text \<open>
  \<open>policy_id: (POL\d+)\<close> matches at a position when the text there starts with the
  literal \<open>policy_id: POL\<close> and at least one digit follows; \<open>\d+\<close> is greedy and ends the
  pattern, so group 1 is \<open>POL\<close> with every digit that follows.
\<close>

definition policy_id_key :: string where
  "policy_id_key = ''policy_id: ''"

definition match_policy_id :: "string \<Rightarrow> string option" where
  "match_policy_id s =
     (let n = length (policy_id_key @ ''POL'') in
      if take n s = policy_id_key @ ''POL'' \<and> takeWhile is_digit (drop n s) \<noteq> []
      then Some (''POL'' @ takeWhile is_digit (drop n s)) else None)"

text \<open>\<open>re.search(r"policy_id: (POL\d+)", s)\<close>, then \<open>group(1)\<close>.\<close>

fun search_policy_id :: "string \<Rightarrow> string option" where
  "search_policy_id [] = None"
| "search_policy_id (c # cs) =
     (case match_policy_id (c # cs) of Some g \<Rightarrow> Some g | None \<Rightarrow> search_policy_id cs)"


section \<open>Documents and the lookup dictionary\<close>

text \<open>
  A \<open>Document\<close> of the loader: the serialized row and its metadata. A Python \<open>dict\<close> is
  an association list kept in insertion order, in which assigning to a key that is
  present replaces its value in place (\<open>AList.update\<close>); lookup is \<open>map_of\<close>.
\<close>

record document =
  page_content :: string
  metadata :: "(string \<times> string) list"

type_synonym policy_dict = "(string \<times> document) list"

text \<open>The loop of \<open>load_and_prepare_data\<close> over the loaded documents, from \<open>policy_dict = {}\<close>.\<close>

fun policy_dict_loop :: "document list \<Rightarrow> policy_dict \<Rightarrow> policy_dict" where
  "policy_dict_loop [] policy_dict = policy_dict"
| "policy_dict_loop (doc # documents) policy_dict =
     (case search_policy_id (page_content doc) of
        Some policy_id \<Rightarrow> policy_dict_loop documents (AList.update policy_id doc policy_dict)
      | None \<Rightarrow> policy_dict_loop documents policy_dict)"

datatype error = SystemExit | EOFError | ChainError

text \<open>
  \<open>load_and_prepare_data\<close>. The file system and the CSV loader are outside the
  repository: \<open>loader\<close> gives, for a path, the documents that \<open>CSVLoader(...).load()\<close>
  returns, and \<open>None\<close> where \<open>os.path.exists\<close> is false (the function then calls
  \<open>exit()\<close>).
\<close>

definition load_and_prepare_data ::
  "(string \<Rightarrow> document list option) \<Rightarrow> string \<Rightarrow> error + (document list \<times> policy_dict)" where
  "load_and_prepare_data loader csv_path =
     (case loader csv_path of
        None \<Rightarrow> Inl SystemExit
      | Some documents \<Rightarrow> Inr (documents, policy_dict_loop documents []))"


section \<open>The custom retriever\<close>

text \<open>
  \<open>get_custom_retriever_function(vectorstore, policy_lookup_dict)\<close> returns the closure
  \<open>_custom_retriever_logic\<close>; applied to a query it returns a list of documents. Its
  \<open>print\<close> calls are diagnostics and return nothing. The vector store is any value.
\<close>

text \<open>Line 75: the match object of the search in the upper-cased query, as its \<open>group(0)\<close>.\<close>

definition policy_id_match :: "string \<Rightarrow> string option" where
  "policy_id_match query = search_POL_d3 (upper query)"

definition custom_retriever_logic :: "policy_dict \<Rightarrow> string \<Rightarrow> document list" where
  "custom_retriever_logic policy_lookup_dict query =
     (case policy_id_match query of
        Some extracted_policy_id \<Rightarrow>
          (case map_of policy_lookup_dict extracted_policy_id of
             Some doc \<Rightarrow> [doc]
           | None \<Rightarrow> [])
      | None \<Rightarrow> [])"

definition get_custom_retriever_function ::
  "'vectorstore \<Rightarrow> policy_dict \<Rightarrow> string \<Rightarrow> document list" where
  "get_custom_retriever_function vectorstore policy_lookup_dict =
     custom_retriever_logic policy_lookup_dict"


section \<open>The chatbot loop\<close>

text \<open>
  \<open>chat_history\<close> holds \<open>HumanMessage\<close> and \<open>AIMessage\<close> values. The conversational
  retrieval chain (query rewriting, retrieval, answer generation) is built by an external
  library around a language model; here it is any function from the input and the chat
  history to the \<open>answer\<close> of the response, \<open>None\<close> when the call raises.
\<close>

datatype message = HumanMessage string | AIMessage string

type_synonym chain = "string \<Rightarrow> message list \<Rightarrow> string option"

text \<open>
  The state of the loop: the history list, and the arguments of every
  \<open>conversational_retrieval_chain.invoke\<close> call made so far, in order. Console output is
  not part of the state.
\<close>

record session =
  chat_history :: "message list"
  invocations :: "(string \<times> message list) list"

definition initial_session :: session where
  "initial_session = \<lparr>chat_history = [], invocations = []\<rparr>"

text \<open>Line 141: \<open>user_query.lower() in ["exit", "quit"]\<close>.\<close>

definition is_exit :: "string \<Rightarrow> bool" where
  "is_exit user_query = (lower user_query \<in> set [''exit'', ''quit''])"

text \<open>
  Lines 145 to 156, the loop body after the exit test: invoke the chain with the input and
  the current history, then append the user message and the answer. An exception of the
  chain leaves the loop with the history as it was.
\<close>

definition turn :: "chain \<Rightarrow> string \<Rightarrow> session \<Rightarrow> error option \<times> session" where
  "turn chain user_query s =
     (let s1 = s\<lparr>invocations := invocations s @ [(user_query, chat_history s)]\<rparr> in
      case chain user_query (chat_history s) of
        None \<Rightarrow> (Some ChainError, s1)
      | Some chatbot_response \<Rightarrow>
          (None, s1\<lparr>chat_history :=
                      chat_history s1 @ [HumanMessage user_query, AIMessage chatbot_response]\<rparr>))"

text \<open>
  The \<open>while True\<close> loop over the lines that \<open>input\<close> returns. \<open>input\<close> raises
  \<open>EOFError\<close> when the console has no further line. The first component of the result
  is \<open>None\<close> when the loop ends by \<open>break\<close>, and the exception otherwise.
\<close>

fun chat_loop :: "chain \<Rightarrow> string list \<Rightarrow> session \<Rightarrow> error option \<times> session" where
  "chat_loop chain [] s = (Some EOFError, s)"
| "chat_loop chain (user_query # console) s =
     (if is_exit user_query then (None, s)
      else case turn chain user_query s of
             (None, s') \<Rightarrow> chat_loop chain console s'
           | (Some e, s') \<Rightarrow> (Some e, s'))"

text \<open>
  The session after each of the given inputs has been a completed turn of the loop (read,
  not an exit keyword, answered, history updated); \<open>None\<close> when one of them is not.
\<close>

fun turns :: "chain \<Rightarrow> string list \<Rightarrow> session \<Rightarrow> session option" where
  "turns chain [] s = Some s"
| "turns chain (user_query # console) s =
     (if is_exit user_query then None
      else case turn chain user_query s of
             (None, s') \<Rightarrow> turns chain console s'
           | (Some e, s') \<Rightarrow> None)"


section \<open>Vocabulary of the specification\<close>

text \<open>
  \<open>substring s i n\<close> is the slice \<open>s[i:i+n]\<close>. A policy token, in the words of the
  specification, is a text of \<open>POL\<close> in either case followed by exactly three digits.
\<close>

definition substring :: "string \<Rightarrow> nat \<Rightarrow> nat \<Rightarrow> string" where
  "substring s i n = take n (drop i s)"

definition is_policy_token :: "string \<Rightarrow> bool" where
  "is_policy_token w =
     (length w = 6 \<and> upper (take 3 w) = ''POL'' \<and> list_all is_digit (drop 3 w))"


text \<open>
  A serialized row has an extractable identifier, in the words of the specification, when
  at some position it has the literal key \<open>policy_id: \<close> followed by \<open>POL\<close> and a digit.
\<close>

definition has_policy_id_field :: "string \<Rightarrow> bool" where
  "has_policy_id_field row =
     list_ex (\<lambda>i. substring row i 14 = ''policy_id: POL''
                 \<and> list_ex is_digit (substring row (i + 14) 1)) [0..<length row]"


section \<open>Sample data\<close>

definition doc_POL001 :: document where
  "doc_POL001 =
     \<lparr>page_content = ''policy_id: POL001\<newline>premium: 500'', metadata = [(''row'', ''0'')]\<rparr>"

definition doc_POL1234 :: document where
  "doc_POL1234 =
     \<lparr>page_content = ''policy_id: POL1234\<newline>premium: 900'', metadata = [(''row'', ''1'')]\<rparr>"

definition doc_POL001_again :: document where
  "doc_POL001_again =
     \<lparr>page_content = ''policy_id: POL001\<newline>premium: 700'', metadata = [(''row'', ''2'')]\<rparr>"

definition doc_malformed :: document where
  "doc_malformed =
     \<lparr>page_content = ''policy: POL777\<newline>premium: 100'', metadata = [(''row'', ''3'')]\<rparr>"

text \<open>A chain that answers every input with the same text.\<close>

definition echo_chain :: chain where
  "echo_chain user_query history = Some ''ok''"


section \<open>Case mapping and digits\<close>

lemma upper_char_cases: "upper_char c = c \<or> upper_char c \<in> set ascii_uppercase"
proof (cases "map_of (zip ascii_lowercase ascii_uppercase) c")
  case None
  then show ?thesis by (simp add: upper_char_def)
next
  case (Some u)
  then have "(c, u) \<in> set (zip ascii_lowercase ascii_uppercase)" by (rule map_of_SomeD)
  then have "u \<in> set ascii_uppercase" by (rule set_zip_rightD)
  with Some show ?thesis by (simp add: upper_char_def)
qed

lemma upper_char_fixed: "c \<notin> set ascii_lowercase \<Longrightarrow> upper_char c = c"
proof -
  assume n: "c \<notin> set ascii_lowercase"
  have "length ascii_lowercase = length ascii_uppercase"
    by (simp add: ascii_lowercase_def ascii_uppercase_def)
  then have "fst ` set (zip ascii_lowercase ascii_uppercase) = set ascii_lowercase"
    by (metis list.set_map map_fst_zip)
  with n have "map_of (zip ascii_lowercase ascii_uppercase) c = None"
    by (simp add: map_of_eq_None_iff)
  then show ?thesis by (simp add: upper_char_def)
qed

lemma digit_not_letter: "is_digit c \<Longrightarrow> c \<notin> set ascii_lowercase \<and> c \<notin> set ascii_uppercase"
  unfolding is_digit_def ascii_lowercase_def ascii_uppercase_def by auto

lemma upper_char_digit: "is_digit c \<Longrightarrow> upper_char c = c"
  by (simp add: digit_not_letter upper_char_fixed)

lemma is_digit_upper_char: "is_digit (upper_char c) = is_digit c"
  using upper_char_cases [of c] digit_not_letter [of "upper_char c"] upper_char_digit [of c]
  by auto

lemma list_all_digit_upper: "list_all is_digit (upper s) = list_all is_digit s"
  by (induction s) (simp_all add: upper_def is_digit_upper_char)

lemma upper_digits: "list_all is_digit s \<Longrightarrow> upper s = s"
  by (induction s) (simp_all add: upper_def upper_char_digit)

lemma length_upper: "length (upper s) = length s"
  by (simp add: upper_def)

lemma upper_take: "upper (take n s) = take n (upper s)"
  by (simp add: upper_def take_map)

lemma upper_drop: "upper (drop n s) = drop n (upper s)"
  by (simp add: upper_def drop_map)

text \<open>The pattern matches at position \<open>i\<close> of the upper-cased query exactly when the six
  characters of the query there are a policy token.\<close>

lemma match_upper_drop:
  "match_POL_d3 (drop i (upper q)) = is_policy_token (substring q i 6)"
proof -
  define r where "r = drop i q"
  have u: "drop i (upper q) = upper r" by (simp add: r_def upper_drop)
  have a: "take 3 (upper r) = upper (take 3 r)" by (simp add: upper_take)
  have b: "take 3 (drop 3 (upper r)) = upper (take 3 (drop 3 r))" by (simp add: upper_take upper_drop)
  have c: "drop 3 (take 6 r) = take 3 (drop 3 r)" by (simp add: drop_take)
  have d: "take 3 (take 6 r) = take 3 r" by simp
  have e: "length (take 6 r) = 6 \<longleftrightarrow> length (take 3 (drop 3 r)) = 3" by auto
  show ?thesis
    unfolding match_POL_d3_def is_policy_token_def substring_def u a b
    unfolding r_def[symmetric] c d e length_upper list_all_digit_upper
    by blast
qed

lemma search_None: "search_POL_d3 s = None \<longleftrightarrow> (\<forall>i. \<not> match_POL_d3 (drop i s))"
proof (induction s)
  case Nil
  then show ?case by (simp add: match_POL_d3_def)
next
  case (Cons c cs)
  show ?case
  proof (cases "match_POL_d3 (c # cs)")
    case True
    then have "match_POL_d3 (drop 0 (c # cs))" by simp
    with True show ?thesis by (metis search_POL_d3.simps(2) option.distinct(1))
  next
    case False
    have "(\<forall>i. \<not> match_POL_d3 (drop i (c # cs))) \<longleftrightarrow> (\<forall>i. \<not> match_POL_d3 (drop i cs))"
    proof
      assume h: "\<forall>i. \<not> match_POL_d3 (drop i (c # cs))"
      show "\<forall>i. \<not> match_POL_d3 (drop i cs)"
      proof
        fix i from h have "\<not> match_POL_d3 (drop (Suc i) (c # cs))" by blast
        then show "\<not> match_POL_d3 (drop i cs)" by simp
      qed
    next
      assume h: "\<forall>i. \<not> match_POL_d3 (drop i cs)"
      show "\<forall>i. \<not> match_POL_d3 (drop i (c # cs))"
      proof
        fix i show "\<not> match_POL_d3 (drop i (c # cs))"
          using h False by (cases i) simp_all
      qed
    qed
    with False Cons show ?thesis by simp
  qed
qed

lemma search_Some: "search_POL_d3 s = Some t \<longleftrightarrow>
   (\<exists>i. match_POL_d3 (drop i s) \<and> (\<forall>j<i. \<not> match_POL_d3 (drop j s)) \<and> t = take 6 (drop i s))"
proof (induction s)
  case Nil
  then show ?case by (simp add: match_POL_d3_def)
next
  case (Cons c cs)
  show ?case
  proof (cases "match_POL_d3 (c # cs)")
    case True
    have "(\<exists>i. match_POL_d3 (drop i (c # cs)) \<and> (\<forall>j<i. \<not> match_POL_d3 (drop j (c # cs))) \<and> t = take 6 (drop i (c # cs)))
        \<longleftrightarrow> t = take 6 (c # cs)"
    proof
      assume "\<exists>i. match_POL_d3 (drop i (c # cs)) \<and> (\<forall>j<i. \<not> match_POL_d3 (drop j (c # cs))) \<and> t = take 6 (drop i (c # cs))"
      then obtain i where i: "\<forall>j<i. \<not> match_POL_d3 (drop j (c # cs))" "t = take 6 (drop i (c # cs))" by blast
      have "i = 0"
      proof (rule ccontr)
        assume "i \<noteq> 0" then have "0 < i" by simp
        with i(1) have "\<not> match_POL_d3 (drop 0 (c # cs))" by blast
        with True show False by simp
      qed
      with i(2) show "t = take 6 (c # cs)" by simp
    next
      assume "t = take 6 (c # cs)"
      with True have "match_POL_d3 (drop 0 (c # cs)) \<and> (\<forall>j<0. \<not> match_POL_d3 (drop j (c # cs))) \<and> t = take 6 (drop 0 (c # cs))"
        by simp
      then show "\<exists>i. match_POL_d3 (drop i (c # cs)) \<and> (\<forall>j<i. \<not> match_POL_d3 (drop j (c # cs))) \<and> t = take 6 (drop i (c # cs))"
        by blast
    qed
    with True show ?thesis by auto
  next
    case False
    have "(\<exists>i. match_POL_d3 (drop i (c # cs)) \<and> (\<forall>j<i. \<not> match_POL_d3 (drop j (c # cs))) \<and> t = take 6 (drop i (c # cs)))
        \<longleftrightarrow> (\<exists>i. match_POL_d3 (drop i cs) \<and> (\<forall>j<i. \<not> match_POL_d3 (drop j cs)) \<and> t = take 6 (drop i cs))"
      (is "?L \<longleftrightarrow> ?R")
    proof
      assume ?L
      then obtain i where i: "match_POL_d3 (drop i (c # cs))" "\<forall>j<i. \<not> match_POL_d3 (drop j (c # cs))" "t = take 6 (drop i (c # cs))" by blast
      from i(1) False obtain k where k: "i = Suc k" by (cases i) auto
      have "\<forall>j<k. \<not> match_POL_d3 (drop j cs)"
      proof (intro allI impI)
        fix j assume "j < k" then have "Suc j < i" using k by simp
        with i(2) have "\<not> match_POL_d3 (drop (Suc j) (c # cs))" by blast
        then show "\<not> match_POL_d3 (drop j cs)" by simp
      qed
      with i k show ?R by auto
    next
      assume ?R
      then obtain i where i: "match_POL_d3 (drop i cs)" "\<forall>j<i. \<not> match_POL_d3 (drop j cs)" "t = take 6 (drop i cs)" by blast
      have "\<forall>j<Suc i. \<not> match_POL_d3 (drop j (c # cs))"
      proof (intro allI impI)
        fix j assume "j < Suc i" then show "\<not> match_POL_d3 (drop j (c # cs))"
          using False i(2) by (cases j) auto
      qed
      with i have "match_POL_d3 (drop (Suc i) (c # cs)) \<and> (\<forall>j<Suc i. \<not> match_POL_d3 (drop j (c # cs))) \<and> t = take 6 (drop (Suc i) (c # cs))"
        by simp
      then show ?L by blast
    qed
    with False Cons show ?thesis by simp
  qed
qed


section \<open>The classifier and the retriever\<close>

lemma retr: "get_custom_retriever_function vs d q = (case policy_id_match q of
        Some extracted_policy_id \<Rightarrow>
          (case map_of d extracted_policy_id of
             Some doc \<Rightarrow> [doc]
           | None \<Rightarrow> [])
      | None \<Rightarrow> [])"
  by (simp add: get_custom_retriever_function_def custom_retriever_logic_def policy_id_match_def)

lemma policy_id_match_None:
  "policy_id_match query = None \<longleftrightarrow> (\<forall>i. \<not> is_policy_token (substring query i 6))"
  by (simp add: policy_id_match_def search_None match_upper_drop)

lemma policy_id_match_Some:
  "policy_id_match query = Some t \<longleftrightarrow>
     (\<exists>i. is_policy_token (substring query i 6) \<and> (\<forall>j<i. \<not> is_policy_token (substring query j 6))
          \<and> t = upper (substring query i 6))"
  by (simp add: policy_id_match_def search_Some match_upper_drop substring_def upper_take upper_drop)

lemma first_token_unique:
  assumes "is_policy_token (substring query i 6)" "\<forall>j<i. \<not> is_policy_token (substring query j 6)"
  shows "policy_id_match query = Some (upper (substring query i 6))"
  using assms policy_id_match_Some by blast

lemma token_shape:
  assumes "is_policy_token w"
  shows "length (upper w) = 6 \<and> take 3 (upper w) = ''POL'' \<and> list_all is_digit (drop 3 (upper w))"
  using assms by (simp add: is_policy_token_def length_upper upper_take list_all_digit_upper flip: upper_drop)

lemma all_less_list: "(\<forall>j<n. P j) = list_all P [0..<n]"
  by (auto simp: list_all_iff)

lemmas text_eval = upper_def upper_char_def lower_def lower_char_def ascii_lowercase_def
  ascii_uppercase_def is_digit_def match_POL_d3_def policy_id_match_def


section \<open>Claims about the retriever\<close>

text \<open>
  C1. For every query that contains a policy token (\<open>POL\<close> in either case followed by three
  digits) and whose extracted identifier, the upper-cased first such token, is a key of the
  lookup dictionary, the retriever returns the list of exactly the one document stored under
  that identifier.
\<close>

theorem retriever_returns_stored_document:
  assumes "is_policy_token (substring query i 6)"
    and "\<forall>j<i. \<not> is_policy_token (substring query j 6)"
    and "map_of policy_lookup_dict (upper (substring query i 6)) = Some doc"
  shows "get_custom_retriever_function vectorstore policy_lookup_dict query = [doc]"
proof -
  from assms(1,2) have "policy_id_match query = Some (upper (substring query i 6))"
    by (rule first_token_unique)
  with assms(3) show ?thesis by (simp add: retr)
qed

theorem retriever_returns_stored_document_witness:
  "is_policy_token (substring ''What is the premium for policy POL001?'' 31 6)
   \<and> \<not> (\<exists>j<31. is_policy_token (substring ''What is the premium for policy POL001?'' j 6))
   \<and> map_of [(''POL001'', doc_POL001)]
        (upper (substring ''What is the premium for policy POL001?'' 31 6)) = Some doc_POL001
   \<and> get_custom_retriever_function () [(''POL001'', doc_POL001)]
        ''What is the premium for policy POL001?'' = [doc_POL001]"
proof -
  let ?q = "''What is the premium for policy POL001?''"
  have a: "is_policy_token (substring ?q 31 6)" by code_simp
  have b: "\<forall>j<31. \<not> is_policy_token (substring ?q j 6)"
    unfolding all_less_list by code_simp
  have c: "map_of [(''POL001'', doc_POL001)] (upper (substring ?q 31 6)) = Some doc_POL001"
    by (simp add: substring_def text_eval)
  from b have b': "\<not> (\<exists>j<31. is_policy_token (substring ?q j 6))" by blast
  show ?thesis
    by (intro conjI a b' c retriever_returns_stored_document [OF a b c])
qed

text \<open>
  C2. For every query that contains a policy token and whose extracted identifier, the
  upper-cased first such token, is not a key of the lookup dictionary, the retriever returns
  the empty list, which is also what it returns for any query without a token.
\<close>

theorem retriever_empty_for_unknown_id:
  assumes "is_policy_token (substring query i 6)"
    and "\<forall>j<i. \<not> is_policy_token (substring query j 6)"
    and "map_of policy_lookup_dict (upper (substring query i 6)) = None"
  shows "get_custom_retriever_function vectorstore policy_lookup_dict query = []
       \<and> (\<forall>general. (\<forall>k. \<not> is_policy_token (substring general k 6)) \<longrightarrow>
            get_custom_retriever_function vectorstore policy_lookup_dict query =
            get_custom_retriever_function vectorstore policy_lookup_dict general)"
proof -
  from assms(1,2) have "policy_id_match query = Some (upper (substring query i 6))"
    by (rule first_token_unique)
  with assms(3) have e: "get_custom_retriever_function vectorstore policy_lookup_dict query = []"
    by (simp add: retr)
  have "get_custom_retriever_function vectorstore policy_lookup_dict general = []"
    if "\<forall>k. \<not> is_policy_token (substring general k 6)" for general
    using that by (simp add: retr flip: policy_id_match_None)
  with e show ?thesis by simp
qed

theorem retriever_empty_for_unknown_id_witness:
  "is_policy_token (substring ''What is the status of policy POL099?'' 29 6)
   \<and> \<not> (\<exists>j<29. is_policy_token (substring ''What is the status of policy POL099?'' j 6))
   \<and> map_of [(''POL001'', doc_POL001)]
        (upper (substring ''What is the status of policy POL099?'' 29 6)) = None
   \<and> (\<forall>k. \<not> is_policy_token (substring ''hi'' k 6))
   \<and> get_custom_retriever_function () [(''POL001'', doc_POL001)]
        ''What is the status of policy POL099?'' = []
   \<and> get_custom_retriever_function () [(''POL001'', doc_POL001)]
        ''What is the status of policy POL099?''
      = get_custom_retriever_function () [(''POL001'', doc_POL001)] ''hi''"
proof -
  let ?q = "''What is the status of policy POL099?''"
  have a: "is_policy_token (substring ?q 29 6)" by code_simp
  have b: "\<forall>j<29. \<not> is_policy_token (substring ?q j 6)"
    unfolding all_less_list by code_simp
  have c: "map_of [(''POL001'', doc_POL001)] (upper (substring ?q 29 6)) = None"
    by (simp add: substring_def text_eval)
  have "policy_id_match ''hi'' = None" by (simp add: text_eval)
  then have d: "\<forall>k. \<not> is_policy_token (substring ''hi'' k 6)"
    by (rule iffD1 [OF policy_id_match_None])
  note r = retriever_empty_for_unknown_id [OF a b c, of "()"]
  from r have e: "get_custom_retriever_function () [(''POL001'', doc_POL001)] ?q = []"
    by (rule conjunct1)
  from r d have f: "get_custom_retriever_function () [(''POL001'', doc_POL001)] ?q
      = get_custom_retriever_function () [(''POL001'', doc_POL001)] ''hi''"
    by blast
  from b have b': "\<not> (\<exists>j<29. is_policy_token (substring ?q j 6))" by blast
  show ?thesis by (intro conjI a b' c d e f)
qed

text \<open>
  C3. For every query that contains no policy token, the retriever returns the empty list,
  whatever the lookup dictionary holds.
\<close>

theorem retriever_empty_without_token:
  assumes "\<forall>i. \<not> is_policy_token (substring query i 6)"
  shows "get_custom_retriever_function vectorstore policy_lookup_dict query = []"
  using assms by (simp add: retr flip: policy_id_match_None)

theorem retriever_empty_without_token_witness:
  "(\<forall>i. \<not> is_policy_token (substring ''Tell me about auto insurance'' i 6))
   \<and> get_custom_retriever_function () [(''POL001'', doc_POL001)]
        ''Tell me about auto insurance'' = []"
proof -
  have "policy_id_match ''Tell me about auto insurance'' = None" by code_simp
  then have a: "\<forall>i. \<not> is_policy_token (substring ''Tell me about auto insurance'' i 6)"
    by (rule iffD1 [OF policy_id_match_None])
  show ?thesis by (intro conjI a retriever_empty_without_token [OF a])
qed

text \<open>
  C5. The result of the retriever does not depend on the vector store: for every query and
  lookup dictionary, any two vector stores, of any kind, give the same list of documents.
\<close>

theorem retriever_ignores_vectorstore:
  "get_custom_retriever_function (vectorstore1 :: 'a) policy_lookup_dict query =
   get_custom_retriever_function (vectorstore2 :: 'b) policy_lookup_dict query"
  by (simp add: get_custom_retriever_function_def)

text \<open>
  C4. For every query, the classifier (the search of line 75 in the upper-cased query)
  returns the first policy token of the query, in upper case: \<open>POL\<close> followed by exactly
  three digits, six characters in all, taken at the leftmost position where the query has
  such a token in either case; later tokens are not returned. It returns nothing exactly
  when the query has no such token at any position.
\<close>

theorem policy_id_match_first_token:
  "(case policy_id_match query of
      None \<Rightarrow> (\<forall>i. \<not> is_policy_token (substring query i 6))
    | Some t \<Rightarrow>
        (\<exists>i. is_policy_token (substring query i 6)
             \<and> (\<forall>j<i. \<not> is_policy_token (substring query j 6))
             \<and> t = upper (substring query i 6))
        \<and> length t = 6 \<and> take 3 t = ''POL'' \<and> list_all is_digit (drop 3 t))"
proof (cases "policy_id_match query")
  case None
  then have "\<forall>i. \<not> is_policy_token (substring query i 6)"
    by (rule iffD1 [OF policy_id_match_None])
  with None show ?thesis by simp
next
  case (Some t)
  then obtain i where i: "is_policy_token (substring query i 6)"
      "\<forall>j<i. \<not> is_policy_token (substring query j 6)" "t = upper (substring query i 6)"
    using policy_id_match_Some by blast
  from i(1,3) have "length t = 6 \<and> take 3 t = ''POL'' \<and> list_all is_digit (drop 3 t)"
    using token_shape by blast
  with i Some show ?thesis by auto
qed

theorem policy_id_match_first_token_witness:
  "policy_id_match ''compare pol002 with POL1234'' = Some ''POL002''
   \<and> (\<exists>i. is_policy_token (substring ''compare pol002 with POL1234'' i 6)
        \<and> (\<forall>j<i. \<not> is_policy_token (substring ''compare pol002 with POL1234'' j 6))
        \<and> ''POL002'' = upper (substring ''compare pol002 with POL1234'' i 6))
   \<and> policy_id_match ''hi'' = None
   \<and> (\<forall>i. \<not> is_policy_token (substring ''hi'' i 6))"
proof -
  have a: "policy_id_match ''compare pol002 with POL1234'' = Some ''POL002''" by code_simp
  have b: "policy_id_match ''hi'' = None" by code_simp
  from policy_id_match_first_token [of "''compare pol002 with POL1234''"]
  have c: "\<exists>i. is_policy_token (substring ''compare pol002 with POL1234'' i 6)
        \<and> (\<forall>j<i. \<not> is_policy_token (substring ''compare pol002 with POL1234'' j 6))
        \<and> ''POL002'' = upper (substring ''compare pol002 with POL1234'' i 6)"
    unfolding a option.case by (rule conjunct1)
  from policy_id_match_first_token [of "''hi''"]
  have d: "\<forall>i. \<not> is_policy_token (substring ''hi'' i 6)"
    unfolding b option.case .
  show ?thesis by (intro conjI a b c d)
qed

section \<open>The chatbot loop: completed turns and exit keywords\<close>

lemma turn_ok:
  "turn chain u s = (None, s') \<longleftrightarrow>
     (\<exists>a. chain u (chat_history s) = Some a
        \<and> s' = \<lparr>chat_history = chat_history s @ [HumanMessage u, AIMessage a],
                 invocations = invocations s @ [(u, chat_history s)]\<rparr>)"
  by (cases "chain u (chat_history s)") (auto simp: turn_def Let_def)

lemma turn_invocations:
  "invocations (snd (turn chain u s)) = invocations s @ [(u, chat_history s)]"
  by (cases "chain u (chat_history s)") (simp_all add: turn_def Let_def)

lemma turns_snoc:
  "turns chain (us @ [u]) s =
     (case turns chain us s of
        None \<Rightarrow> None
      | Some s1 \<Rightarrow>
          (if is_exit u then None
           else case turn chain u s1 of (None, s') \<Rightarrow> Some s' | (Some e, s') \<Rightarrow> None))"
proof (induction us arbitrary: s)
  case Nil
  show ?case by (simp split: prod.splits option.splits)
next
  case (Cons x xs)
  show ?case
  proof (cases "is_exit x")
    case True
    then show ?thesis by simp
  next
    case False
    obtain r s' where t: "turn chain x s = (r, s')" by (cases "turn chain x s")
    show ?thesis
    proof (cases r)
      case None
      with False t Cons [of s'] show ?thesis by simp
    next
      case (Some e)
      with False t show ?thesis by simp
    qed
  qed
qed

lemma turns_loop:
  "turns chain us s = Some s' \<Longrightarrow> chat_loop chain (us @ console) s = chat_loop chain console s'"
proof (induction us arbitrary: s)
  case Nil
  then show ?case by simp
next
  case (Cons x xs)
  from Cons.prems have ne: "\<not> is_exit x" by (auto split: if_splits)
  obtain r s1 where t: "turn chain x s = (r, s1)" by (cases "turn chain x s")
  with Cons.prems ne have r: "r = None" and s1: "turns chain xs s1 = Some s'"
    by (auto split: option.splits)
  from Cons.IH [OF s1] ne t r show ?case by simp
qed

text \<open>The history after completed turns, from the empty history.\<close>

lemma turns_history:
  "turns chain us initial_session = Some s \<Longrightarrow>
     length (chat_history s) = 2 * length us
     \<and> (\<forall>i<length us. chat_history s ! (2 * i) = HumanMessage (us ! i)
           \<and> (\<exists>a. chain (us ! i) (take (2 * i) (chat_history s)) = Some a
                  \<and> chat_history s ! (2 * i + 1) = AIMessage a))
     \<and> (\<forall>k\<le>length us. \<exists>sk. turns chain (take k us) initial_session = Some sk
           \<and> chat_history sk = take (2 * k) (chat_history s))"
proof (induction us arbitrary: s rule: rev_induct)
  case Nil
  then show ?case by (auto simp: initial_session_def)
next
  case (snoc u us)
  from snoc.prems obtain s1 where s1: "turns chain us initial_session = Some s1"
    and t: "turn chain u s1 = (None, s)"
    by (auto simp: turns_snoc split: option.splits if_splits prod.splits)
  from t obtain a where a: "chain u (chat_history s1) = Some a"
    and h: "chat_history s = chat_history s1 @ [HumanMessage u, AIMessage a]"
    by (auto simp: turn_ok)
  note IH = snoc.IH [OF s1]
  from IH have len1: "length (chat_history s1) = 2 * length us" by blast
  have len: "length (chat_history s) = 2 * length (us @ [u])"
    using h len1 by simp
  have idx: "chat_history s ! (2 * i) = HumanMessage ((us @ [u]) ! i)
           \<and> (\<exists>b. chain ((us @ [u]) ! i) (take (2 * i) (chat_history s)) = Some b
                  \<and> chat_history s ! (2 * i + 1) = AIMessage b)"
    if "i < length (us @ [u])" for i
  proof (cases "i < length us")
    case True
    then have lt: "2 * i < length (chat_history s1)" "2 * i + 1 < length (chat_history s1)"
      using len1 by simp_all
    from IH True have p: "chat_history s1 ! (2 * i) = HumanMessage (us ! i)
           \<and> (\<exists>b. chain (us ! i) (take (2 * i) (chat_history s1)) = Some b
                  \<and> chat_history s1 ! (2 * i + 1) = AIMessage b)" by blast
    have "take (2 * i) (chat_history s) = take (2 * i) (chat_history s1)"
      using h lt by simp
    moreover have "chat_history s ! (2 * i) = chat_history s1 ! (2 * i)"
      using h lt by (simp add: nth_append)
    moreover have "chat_history s ! (2 * i + 1) = chat_history s1 ! (2 * i + 1)"
      using h lt(2) by (simp only: nth_append if_True)
    moreover have "(us @ [u]) ! i = us ! i" using True by (simp add: nth_append)
    ultimately show ?thesis using p by simp
  next
    case False
    with that have i: "i = length us" by simp
    then have e: "2 * i = length (chat_history s1)" using len1 by simp
    have "take (2 * i) (chat_history s) = chat_history s1" using h e by simp
    moreover have "chat_history s ! (2 * i) = HumanMessage u" using h e by (simp add: nth_append)
    moreover have "chat_history s ! (2 * i + 1) = AIMessage a"
      using h e by (simp add: nth_append)
    moreover have "(us @ [u]) ! i = u" using i by simp
    ultimately show ?thesis using a by simp
  qed
  have pre: "\<exists>sk. turns chain (take k (us @ [u])) initial_session = Some sk
           \<and> chat_history sk = take (2 * k) (chat_history s)"
    if "k \<le> length (us @ [u])" for k
  proof (cases "k \<le> length us")
    case True
    with IH obtain sk where sk: "turns chain (take k us) initial_session = Some sk"
      "chat_history sk = take (2 * k) (chat_history s1)" by blast
    from True have "2 * k \<le> length (chat_history s1)" using len1 by simp
    then have "take (2 * k) (chat_history s) = take (2 * k) (chat_history s1)"
      using h by simp
    with sk True show ?thesis by simp
  next
    case False
    with that have k: "k = Suc (length us)" by simp
    then have "take k (us @ [u]) = us @ [u]" by simp
    moreover have "take (2 * k) (chat_history s) = chat_history s" using len k by simp
    ultimately show ?thesis using snoc.prems by simp
  qed
  from len idx pre show ?case by blast
qed

lemma chat_loop_extends:
  "\<exists>h c. chat_history (snd (chat_loop chain console s)) = chat_history s @ h
       \<and> invocations (snd (chat_loop chain console s)) = invocations s @ c"
proof (induction console arbitrary: s)
  case Nil
  show ?case by simp
next
  case (Cons x xs)
  show ?case
  proof (cases "is_exit x")
    case True
    then show ?thesis by simp
  next
    case False
    obtain r s1 where t: "turn chain x s = (r, s1)" by (cases "turn chain x s")
    have i1: "invocations s1 = invocations s @ [(x, chat_history s)]"
      using turn_invocations [of chain x s] t by simp
    show ?thesis
    proof (cases r)
      case None
      with t obtain a where "chat_history s1 = chat_history s @ [HumanMessage x, AIMessage a]"
        by (auto simp: turn_ok)
      with Cons [of s1] i1 False t None show ?thesis by auto
    next
      case (Some e)
      with t have "chat_history s1 = chat_history s"
        by (cases "chain x (chat_history s)") (auto simp: turn_def Let_def)
      with i1 False t Some show ?thesis by simp
    qed
  qed
qed

lemma chat_loop_invokes:
  assumes "\<not> is_exit u"
  shows "take (Suc (length (invocations s))) (invocations (snd (chat_loop chain (u # console) s)))
         = invocations s @ [(u, chat_history s)]"
proof -
  obtain r s1 where t: "turn chain u s = (r, s1)" by (cases "turn chain u s")
  have i1: "invocations s1 = invocations s @ [(u, chat_history s)]"
    using turn_invocations [of chain u s] t by simp
  show ?thesis
  proof (cases r)
    case None
    from chat_loop_extends [of chain console s1] obtain c
      where "invocations (snd (chat_loop chain console s1)) = invocations s1 @ c" by blast
    with assms t None i1 show ?thesis by simp
  next
    case (Some e)
    with assms t i1 show ?thesis by simp
  qed
qed

section \<open>Claims about the chatbot loop\<close>

text \<open>
  C6. After N completed turns from the empty history (each input read, answered by the
  chain and recorded), the history has exactly 2N entries; entry 2i is the user message of
  the i-th input and entry 2i+1 the assistant message with the answer the chain gave to
  that input on the history before it; the history after the first k turns is the first 2k
  entries of the final one, so no earlier entry is removed or reordered; and the loop, having
  read these inputs, goes on from exactly this state.
\<close>

theorem chat_history_after_turns:
  assumes "turns chain us initial_session = Some s"
  shows "length (chat_history s) = 2 * length us
     \<and> (\<forall>i<length us. chat_history s ! (2 * i) = HumanMessage (us ! i)
           \<and> (\<exists>a. chain (us ! i) (take (2 * i) (chat_history s)) = Some a
                  \<and> chat_history s ! (2 * i + 1) = AIMessage a))
     \<and> (\<forall>k\<le>length us. \<exists>sk. turns chain (take k us) initial_session = Some sk
           \<and> chat_history sk = take (2 * k) (chat_history s))
     \<and> (\<forall>console. chat_loop chain (us @ console) initial_session = chat_loop chain console s)"
  using turns_history [OF assms] turns_loop [OF assms] by blast

theorem chat_history_after_turns_witness:
  "turns echo_chain [''hi'', ''pol001''] initial_session =
     Some \<lparr>chat_history = [HumanMessage ''hi'', AIMessage ''ok'',
                              HumanMessage ''pol001'', AIMessage ''ok''],
           invocations = [(''hi'', []), (''pol001'', [HumanMessage ''hi'', AIMessage ''ok''])]\<rparr>
   \<and> length [HumanMessage ''hi'', AIMessage ''ok'', HumanMessage ''pol001'', AIMessage ''ok'']
       = 2 * length [''hi'', ''pol001'']
   \<and> chat_loop echo_chain ([''hi'', ''pol001''] @ [''quit'']) initial_session =
       (None, \<lparr>chat_history = [HumanMessage ''hi'', AIMessage ''ok'',
                                  HumanMessage ''pol001'', AIMessage ''ok''],
               invocations = [(''hi'', []),
                              (''pol001'', [HumanMessage ''hi'', AIMessage ''ok''])]\<rparr>)"
proof -
  let ?s = "\<lparr>chat_history = [HumanMessage ''hi'', AIMessage ''ok'',
                              HumanMessage ''pol001'', AIMessage ''ok''],
           invocations = [(''hi'', []), (''pol001'', [HumanMessage ''hi'', AIMessage ''ok''])]\<rparr>"
  have a: "turns echo_chain [''hi'', ''pol001''] initial_session = Some ?s"
    by (simp add: turn_def is_exit_def text_eval echo_chain_def initial_session_def)
  have q: "chat_loop echo_chain [''quit''] ?s = (None, ?s)"
    by (simp add: is_exit_def text_eval)
  note t = chat_history_after_turns [OF a]
  from t have l: "length (chat_history ?s) = 2 * length [''hi'', ''pol001'']"
    by (rule conjunct1)
  have "\<forall>console. chat_loop echo_chain ([''hi'', ''pol001''] @ console) initial_session
      = chat_loop echo_chain console ?s"
    by (rule t [THEN conjunct2, THEN conjunct2, THEN conjunct2])
  then have "chat_loop echo_chain ([''hi'', ''pol001''] @ [''quit'']) initial_session
      = chat_loop echo_chain [''quit''] ?s" by (rule spec)
  from this q have c: "chat_loop echo_chain ([''hi'', ''pol001''] @ [''quit'']) initial_session
      = (None, ?s)" by (rule trans)
  from l have l': "length [HumanMessage ''hi'', AIMessage ''ok'', HumanMessage ''pol001'',
      AIMessage ''ok''] = 2 * length [''hi'', ''pol001'']" by simp
  show ?thesis by (intro conjI a l' c)
qed

text \<open>
  C7. When the lower-cased input is \<open>exit\<close> or \<open>quit\<close>, the loop ends by \<open>break\<close> with
  the session as it was: the history is not changed and the chain is not invoked, whatever
  the chain and the lines still on the console. Every other input is passed to the chain
  together with the current history: the loop goes on as the loop body decides, and the
  next recorded invocation is that input with that history.
\<close>

theorem exit_keyword_ends_loop:
  "(lower user_query = ''exit'' \<or> lower user_query = ''quit'' \<longrightarrow>
      chat_loop chain (user_query # console) s = (None, s))
   \<and> (\<not> (lower user_query = ''exit'' \<or> lower user_query = ''quit'') \<longrightarrow>
      chat_loop chain (user_query # console) s =
        (case turn chain user_query s of
           (None, s') \<Rightarrow> chat_loop chain console s'
         | (Some e, s') \<Rightarrow> (Some e, s'))
      \<and> take (Suc (length (invocations s)))
            (invocations (snd (chat_loop chain (user_query # console) s)))
          = invocations s @ [(user_query, chat_history s)])"
proof -
  have e: "is_exit user_query \<longleftrightarrow> lower user_query = ''exit'' \<or> lower user_query = ''quit''"
    by (simp add: is_exit_def)
  show ?thesis
    unfolding e [symmetric] using chat_loop_invokes [of user_query s chain console] by simp
qed

theorem exit_keyword_ends_loop_witness:
  "(lower ''EXIT'' = ''exit'' \<or> lower ''EXIT'' = ''quit'')
   \<and> chat_loop echo_chain [''EXIT'', ''hi''] initial_session = (None, initial_session)
   \<and> \<not> (lower ''exit now'' = ''exit'' \<or> lower ''exit now'' = ''quit'')
   \<and> take (Suc (length (invocations initial_session)))
         (invocations (snd (chat_loop echo_chain [''exit now'', ''Quit''] initial_session)))
       = invocations initial_session @ [(''exit now'', chat_history initial_session)]"
proof -
  have a: "lower ''EXIT'' = ''exit'' \<or> lower ''EXIT'' = ''quit''"
    by (simp add: text_eval)
  have b: "\<not> (lower ''exit now'' = ''exit'' \<or> lower ''exit now'' = ''quit'')"
    by (simp add: text_eval)
  from exit_keyword_ends_loop [of "''EXIT''" echo_chain "[''hi'']" initial_session] a
  have c: "chat_loop echo_chain [''EXIT'', ''hi''] initial_session = (None, initial_session)"
    by blast
  from exit_keyword_ends_loop [of "''exit now''" echo_chain "[''Quit'']" initial_session] b
  have d: "take (Suc (length (invocations initial_session)))
         (invocations (snd (chat_loop echo_chain [''exit now'', ''Quit''] initial_session)))
       = invocations initial_session @ [(''exit now'', chat_history initial_session)]"
    by blast
  show ?thesis by (intro conjI a b c d)
qed

section \<open>The identifier of a row and the lookup dictionary\<close>

lemma match_policy_id_iff:
  "match_policy_id s \<noteq> None \<longleftrightarrow>
     substring s 0 14 = ''policy_id: POL'' \<and> list_ex is_digit (substring s 14 1)"
proof -
  have n: "length ''policy_id: POL'' = 14" by simp
  have k: "policy_id_key @ ''POL'' = ''policy_id: POL''" by (simp add: policy_id_key_def)
  have "takeWhile is_digit (drop 14 s) \<noteq> [] \<longleftrightarrow> list_ex is_digit (take 1 (drop 14 s))"
    by (cases "drop 14 s") simp_all
  then show ?thesis
    unfolding match_policy_id_def Let_def k n substring_def by simp
qed

lemma match_policy_id_shape:
  "match_policy_id s = Some g \<Longrightarrow> \<exists>ds. g = ''POL'' @ ds \<and> ds \<noteq> [] \<and> list_all is_digit ds"
proof -
  assume a: "match_policy_id s = Some g"
  have "list_all is_digit (takeWhile is_digit xs)" for xs :: string
    by (induction xs) simp_all
  with a show ?thesis
    by (auto simp only: match_policy_id_def Let_def split: if_splits)
qed

lemma search_policy_id_shape:
  "search_policy_id s = Some g \<Longrightarrow> \<exists>ds. g = ''POL'' @ ds \<and> ds \<noteq> [] \<and> list_all is_digit ds"
proof (induction s)
  case Nil
  then show ?case by simp
next
  case (Cons c cs)
  then show ?case
    by (cases "match_policy_id (c # cs)") (auto dest: match_policy_id_shape)
qed

lemma search_policy_id_None:
  "search_policy_id s = None \<longleftrightarrow> (\<forall>i<length s. match_policy_id (drop i s) = None)"
proof (induction s)
  case Nil
  then show ?case by simp
next
  case (Cons c cs)
  have split: "(\<forall>i<length (c # cs). match_policy_id (drop i (c # cs)) = None) \<longleftrightarrow>
      match_policy_id (c # cs) = None \<and> (\<forall>i<length cs. match_policy_id (drop i cs) = None)"
    (is "?L \<longleftrightarrow> ?R")
  proof
    assume l: ?L
    then have "match_policy_id (drop 0 (c # cs)) = None" by (metis length_greater_0_conv list.distinct(1))
    moreover have "\<forall>i<length cs. match_policy_id (drop i cs) = None"
    proof (intro allI impI)
      fix i assume "i < length cs"
      then have "Suc i < length (c # cs)" by simp
      with l have "match_policy_id (drop (Suc i) (c # cs)) = None" by blast
      then show "match_policy_id (drop i cs) = None" by simp
    qed
    ultimately show ?R by simp
  next
    assume r: ?R
    show ?L
    proof (intro allI impI)
      fix i assume "i < length (c # cs)"
      then show "match_policy_id (drop i (c # cs)) = None"
        using r by (cases i) simp_all
    qed
  qed
  show ?case
    unfolding split using Cons by (cases "match_policy_id (c # cs)") simp_all
qed

lemma ex_upt: "(\<exists>i\<in>set [0..<n]. P i) = (\<exists>i<n. P i)"
  by auto

lemma has_policy_id_field_iff:
  "has_policy_id_field row \<longleftrightarrow> search_policy_id row \<noteq> None"
proof -
  have m: "(substring row i 14 = ''policy_id: POL'' \<and> list_ex is_digit (substring row (i + 14) 1))
      \<longleftrightarrow> match_policy_id (drop i row) \<noteq> None" for i
    using match_policy_id_iff [of "drop i row"] by (simp add: substring_def add.commute)
  have s1: "has_policy_id_field row \<longleftrightarrow>
      (\<exists>i\<in>set [0..<length row]. match_policy_id (drop i row) \<noteq> None)"
    by (simp only: has_policy_id_field_def m) (simp only: list_ex_iff)
  have s2: "(\<exists>i\<in>set [0..<length row]. match_policy_id (drop i row) \<noteq> None)
      \<longleftrightarrow> (\<exists>i<length row. match_policy_id (drop i row) \<noteq> None)"
    by (rule ex_upt [of "length row" "\<lambda>i. match_policy_id (drop i row) \<noteq> None"])
  have s3: "(\<exists>i<length row. match_policy_id (drop i row) \<noteq> None)
      \<longleftrightarrow> search_policy_id row \<noteq> None"
    unfolding search_policy_id_None by (simp only: not_all not_imp)
  from s1 s2 s3 show ?thesis by (rule trans [OF trans])
qed

lemma set_update_subset: "set (AList.update k v al) \<subseteq> insert (k, v) (set al)"
  by (induction al) auto

lemma loop_distinct:
  "distinct (map fst d) \<Longrightarrow> distinct (map fst (policy_dict_loop documents d))"
proof (induction documents arbitrary: d)
  case Nil
  then show ?case by simp
next
  case (Cons x xs)
  then show ?case
    by (cases "search_policy_id (page_content x)") (simp_all add: distinct_update)
qed

lemma loop_lookup:
  "map_of (policy_dict_loop documents d) k =
     (case filter (\<lambda>doc. search_policy_id (page_content doc) = Some k) documents of
        [] \<Rightarrow> map_of d k
      | ds \<Rightarrow> Some (last ds))"
proof (induction documents arbitrary: d)
  case Nil
  show ?case by simp
next
  case (Cons x xs)
  show ?case
  proof (cases "search_policy_id (page_content x)")
    case None
    then show ?thesis using Cons [of d] by simp
  next
    case (Some k')
    show ?thesis
    proof (cases "k' = k")
      case True
      with Some Cons [of "AList.update k' x d"] show ?thesis
        by (simp add: update_conv' split: list.splits)
    next
      case False
      with Some Cons [of "AList.update k' x d"] show ?thesis
        by (simp add: update_conv' split: list.splits)
    qed
  qed
qed

lemma loop_last_wins:
  assumes "documents = before @ doc # after"
    and "search_policy_id (page_content doc) = Some k"
    and "\<forall>later\<in>set after. search_policy_id (page_content later) \<noteq> Some k"
  shows "map_of (policy_dict_loop documents d) k = Some doc"
proof -
  let ?P = "\<lambda>doc. search_policy_id (page_content doc) = Some k"
  from assms(3) have "filter ?P after = []" by (simp add: filter_empty_conv)
  with assms(1,2) have f: "filter ?P documents = filter ?P before @ [doc]" by simp
  have c: "(case ys of [] \<Rightarrow> z | ds \<Rightarrow> Some (last ds)) = Some (last ys)"
    if "ys \<noteq> []" for ys :: "document list" and z
    using that by (cases ys) simp_all
  have "map_of (policy_dict_loop documents d) k = Some (last (filter ?P before @ [doc]))"
    unfolding loop_lookup f by (rule c) simp
  then show ?thesis by simp
qed

lemma loop_entries:
  "(k, doc) \<in> set (policy_dict_loop documents d) \<Longrightarrow>
     (k, doc) \<in> set d \<or> (doc \<in> set documents \<and> search_policy_id (page_content doc) = Some k)"
proof (induction documents arbitrary: d)
  case Nil
  then show ?case by simp
next
  case (Cons x xs)
  show ?case
  proof (cases "search_policy_id (page_content x)")
    case None
    with Cons.prems have "(k, doc) \<in> set (policy_dict_loop xs d)" by simp
    from Cons.IH [OF this] show ?thesis by auto
  next
    case (Some k')
    with Cons.prems have "(k, doc) \<in> set (policy_dict_loop xs (AList.update k' x d))" by simp
    from Cons.IH [OF this] set_update_subset [of k' x d] Some show ?thesis by auto
  qed
qed

lemma loop_keys:
  "fst ` set (policy_dict_loop documents d) =
     fst ` set d \<union> {k. \<exists>doc\<in>set documents. search_policy_id (page_content doc) = Some k}"
proof (induction documents arbitrary: d)
  case Nil
  show ?case by simp
next
  case (Cons x xs)
  show ?case
  proof (cases "search_policy_id (page_content x)")
    case None
    then show ?thesis using Cons [of d] by auto
  next
    case (Some k')
    then show ?thesis using Cons [of "AList.update k' x d"] by (auto simp: dom_update)
  qed
qed

lemma loop_skips_malformed:
  "policy_dict_loop documents d =
     policy_dict_loop (filter (\<lambda>doc. has_policy_id_field (page_content doc)) documents) d"
proof (induction documents arbitrary: d)
  case Nil
  show ?case by simp
next
  case (Cons x xs)
  show ?case
  proof (cases "search_policy_id (page_content x)")
    case None
    then have "\<not> has_policy_id_field (page_content x)" by (simp add: has_policy_id_field_iff)
    with None Cons [of d] show ?thesis by simp
  next
    case (Some k')
    then have "has_policy_id_field (page_content x)" by (simp add: has_policy_id_field_iff)
    with Some Cons [of "AList.update k' x d"] show ?thesis by simp
  qed
qed

lemma retriever_result:
  "doc \<in> set (get_custom_retriever_function vs d q) \<Longrightarrow>
     \<exists>ds. length ds = 3 \<and> list_all is_digit ds \<and> map_of d (''POL'' @ ds) = Some doc"
proof -
  assume a: "doc \<in> set (get_custom_retriever_function vs d q)"
  have "\<exists>t. policy_id_match q = Some t \<and> map_of d t = Some doc"
  proof (cases "policy_id_match q")
    case None
    with a show ?thesis by (simp add: retr)
  next
    case (Some t)
    with a have "map_of d t = Some doc"
      by (cases "map_of d t") (simp_all add: retr)
    with Some show ?thesis by simp
  qed
  then obtain t where t: "policy_id_match q = Some t" and m: "map_of d t = Some doc"
    by blast
  from t obtain i where "is_policy_token (substring q i 6)" "t = upper (substring q i 6)"
    using policy_id_match_Some by blast
  then have s: "length t = 6" "take 3 t = ''POL''" "list_all is_digit (drop 3 t)"
    using token_shape by blast+
  have "t = take 3 t @ drop 3 t" by simp
  with s(2) have "t = ''POL'' @ drop 3 t" by simp
  moreover have "length (drop 3 t) = 3" using s(1) by simp
  ultimately show ?thesis using s(3) m by metis
qed

lemmas row_eval = match_policy_id_def policy_id_key_def is_digit_def

lemma id_doc_POL001: "search_policy_id (page_content doc_POL001) = Some ''POL001''"
  by (simp add: row_eval doc_POL001_def)

lemma id_doc_POL1234: "search_policy_id (page_content doc_POL1234) = Some ''POL1234''"
  by (simp add: row_eval doc_POL1234_def)

lemma id_doc_POL001_again: "search_policy_id (page_content doc_POL001_again) = Some ''POL001''"
  by (simp add: row_eval doc_POL001_again_def)

lemma id_doc_malformed: "search_policy_id (page_content doc_malformed) = None"
  by (simp add: row_eval doc_malformed_def)

section \<open>Claims about the lookup dictionary\<close>

text \<open>
  C8. For every sequence of loaded rows, the dictionary that \<open>load_and_prepare_data\<close>
  returns has each identifier as a key at most once, and it maps an identifier to the
  document of the last row that carries it: when two or more rows have the same extracted
  identifier, the last of them is the one stored.
\<close>

theorem duplicate_ids_last_row_wins:
  assumes "loader csv_path = Some documents"
  shows "\<exists>policy_dict. load_and_prepare_data loader csv_path = Inr (documents, policy_dict)
     \<and> distinct (map fst policy_dict)
     \<and> (\<forall>before doc after policy_id.
           documents = before @ doc # after
           \<and> search_policy_id (page_content doc) = Some policy_id
           \<and> (\<forall>later\<in>set after. search_policy_id (page_content later) \<noteq> Some policy_id)
           \<longrightarrow> map_of policy_dict policy_id = Some doc)"
proof -
  have "distinct (map fst (policy_dict_loop documents []))"
    by (rule loop_distinct) simp
  with assms show ?thesis
    by (auto simp: load_and_prepare_data_def intro: loop_last_wins)
qed

theorem duplicate_ids_last_row_wins_witness:
  "\<exists>policy_dict.
      load_and_prepare_data (\<lambda>path. Some [doc_POL001, doc_POL1234, doc_POL001_again])
        ''policies.csv''
      = Inr ([doc_POL001, doc_POL1234, doc_POL001_again], policy_dict)
    \<and> distinct (map fst policy_dict)
    \<and> map_of policy_dict ''POL001'' = Some doc_POL001_again"
proof -
  have b: "[doc_POL001, doc_POL1234, doc_POL001_again]
           = [doc_POL001, doc_POL1234] @ doc_POL001_again # []" by simp
  have c: "\<forall>later\<in>set []. search_policy_id (page_content later) \<noteq> Some ''POL001''"
    by simp
  from duplicate_ids_last_row_wins
    [of "\<lambda>path. Some [doc_POL001, doc_POL1234, doc_POL001_again]" "''policies.csv''"
        "[doc_POL001, doc_POL1234, doc_POL001_again]", OF refl]
  obtain policy_dict
    where r: "load_and_prepare_data (\<lambda>path. Some [doc_POL001, doc_POL1234, doc_POL001_again])
        ''policies.csv'' = Inr ([doc_POL001, doc_POL1234, doc_POL001_again], policy_dict)"
      and d: "distinct (map fst policy_dict)"
      and w: "\<forall>before doc after policy_id.
           [doc_POL001, doc_POL1234, doc_POL001_again] = before @ doc # after
           \<and> search_policy_id (page_content doc) = Some policy_id
           \<and> (\<forall>later\<in>set after. search_policy_id (page_content later) \<noteq> Some policy_id)
           \<longrightarrow> map_of policy_dict policy_id = Some doc"
    by (elim exE conjE)
  have "map_of policy_dict ''POL001'' = Some doc_POL001_again"
    by (rule w [rule_format, of "[doc_POL001, doc_POL1234]" doc_POL001_again "[]" "''POL001''"])
      (intro conjI b id_doc_POL001_again c)
  with r d show ?thesis by (intro exI [of _ policy_dict] conjI)
qed

text \<open>
  C9. Whenever the dataset file exists, \<open>load_and_prepare_data\<close> returns normally for
  every sequence of loaded rows, with all the rows and the dictionary. Rows whose text has no
  \<open>policy_id: \<close> key followed by \<open>POL\<close> and a digit do not change the dictionary and are
  not among its values; every other row has its identifier as a key.
\<close>

theorem malformed_rows_are_skipped:
  assumes "loader csv_path = Some documents"
  shows "\<exists>policy_dict. load_and_prepare_data loader csv_path = Inr (documents, policy_dict)
     \<and> policy_dict =
         policy_dict_loop (filter (\<lambda>doc. has_policy_id_field (page_content doc)) documents) []
     \<and> (\<forall>doc. \<not> has_policy_id_field (page_content doc) \<longrightarrow> doc \<notin> snd ` set policy_dict)
     \<and> (\<forall>doc\<in>set documents. has_policy_id_field (page_content doc) \<longrightarrow>
           (\<exists>policy_id. search_policy_id (page_content doc) = Some policy_id
                        \<and> policy_id \<in> fst ` set policy_dict))"
proof -
  let ?d = "policy_dict_loop documents []"
  have r: "load_and_prepare_data loader csv_path = Inr (documents, ?d)"
    using assms by (simp add: load_and_prepare_data_def)
  have f: "?d = policy_dict_loop (filter (\<lambda>doc. has_policy_id_field (page_content doc)) documents) []"
    by (rule loop_skips_malformed)
  have m: "doc \<notin> snd ` set ?d" if "\<not> has_policy_id_field (page_content doc)" for doc
  proof
    assume "doc \<in> snd ` set ?d"
    then obtain k where "(k, doc) \<in> set ?d" by auto
    from loop_entries [OF this] have "search_policy_id (page_content doc) = Some k" by simp
    with that show False by (simp add: has_policy_id_field_iff)
  qed
  have k: "\<exists>policy_id. search_policy_id (page_content doc) = Some policy_id
                        \<and> policy_id \<in> fst ` set ?d"
    if "doc \<in> set documents" "has_policy_id_field (page_content doc)" for doc
  proof -
    from that(2) obtain p where p: "search_policy_id (page_content doc) = Some p"
      by (auto simp: has_policy_id_field_iff)
    with that(1) have "p \<in> fst ` set ?d" unfolding loop_keys by blast
    with p show ?thesis by simp
  qed
  from r f m k show ?thesis by blast
qed

theorem malformed_rows_are_skipped_witness:
  "\<not> has_policy_id_field (page_content doc_malformed)
   \<and> has_policy_id_field (page_content doc_POL001)
   \<and> (\<exists>policy_dict.
        load_and_prepare_data (\<lambda>path. Some [doc_malformed, doc_POL001]) ''policies.csv''
        = Inr ([doc_malformed, doc_POL001], policy_dict)
      \<and> doc_malformed \<notin> snd ` set policy_dict
      \<and> (\<exists>policy_id. search_policy_id (page_content doc_POL001) = Some policy_id
                        \<and> policy_id \<in> fst ` set policy_dict))"
proof -
  have b: "\<not> has_policy_id_field (page_content doc_malformed)"
    by (simp add: has_policy_id_field_iff id_doc_malformed)
  have c: "has_policy_id_field (page_content doc_POL001)"
    by (simp add: has_policy_id_field_iff id_doc_POL001)
  have d: "doc_POL001 \<in> set [doc_malformed, doc_POL001]" by simp
  from malformed_rows_are_skipped
    [of "\<lambda>path. Some [doc_malformed, doc_POL001]" "''policies.csv''"
        "[doc_malformed, doc_POL001]", OF refl]
  obtain policy_dict
    where r: "load_and_prepare_data (\<lambda>path. Some [doc_malformed, doc_POL001]) ''policies.csv''
        = Inr ([doc_malformed, doc_POL001], policy_dict)"
      and m: "\<forall>doc. \<not> has_policy_id_field (page_content doc) \<longrightarrow> doc \<notin> snd ` set policy_dict"
      and k: "\<forall>doc\<in>set [doc_malformed, doc_POL001]. has_policy_id_field (page_content doc) \<longrightarrow>
           (\<exists>policy_id. search_policy_id (page_content doc) = Some policy_id
                        \<and> policy_id \<in> fst ` set policy_dict)"
    by (elim exE conjE)
  have m': "doc_malformed \<notin> snd ` set policy_dict"
    by (rule m [rule_format, OF b])
  from k [rule_format, OF d c]
  have k': "\<exists>policy_id. search_policy_id (page_content doc_POL001) = Some policy_id
                        \<and> policy_id \<in> fst ` set policy_dict" .
  have "\<exists>policy_dict.
        load_and_prepare_data (\<lambda>path. Some [doc_malformed, doc_POL001]) ''policies.csv''
        = Inr ([doc_malformed, doc_POL001], policy_dict)
      \<and> doc_malformed \<notin> snd ` set policy_dict
      \<and> (\<exists>policy_id. search_policy_id (page_content doc_POL001) = Some policy_id
                        \<and> policy_id \<in> fst ` set policy_dict)"
    by (rule exI [of _ policy_dict]) (intro conjI r m' k')
  with b c show ?thesis by (intro conjI)
qed

text \<open>
  C10. Every document that the retriever returns is stored under a key of \<open>POL\<close> followed
  by exactly three digits, and with a dictionary built by \<open>load_and_prepare_data\<close> that key
  is the identifier extracted from the document itself. A row whose identifier has more than
  three digits, such as \<open>POL1234\<close>, has its identifier as a key of the dictionary, yet its
  document is not returned for any query.
\<close>

theorem returned_documents_have_three_digit_ids:
  "(doc \<in> set (get_custom_retriever_function vectorstore policy_lookup_dict query) \<longrightarrow>
      (\<exists>ds. length ds = 3 \<and> list_all is_digit ds
            \<and> map_of policy_lookup_dict (''POL'' @ ds) = Some doc))
   \<and> (doc \<in> set (get_custom_retriever_function vectorstore (policy_dict_loop documents []) query)
      \<longrightarrow> (\<exists>ds. length ds = 3 \<and> list_all is_digit ds
            \<and> search_policy_id (page_content doc) = Some (''POL'' @ ds)))
   \<and> (doc \<in> set documents \<and> search_policy_id (page_content doc) = Some policy_id
        \<and> length policy_id > 6
      \<longrightarrow> policy_id \<in> fst ` set (policy_dict_loop documents [])
        \<and> doc \<notin> set (get_custom_retriever_function vectorstore
                          (policy_dict_loop documents []) query))"
proof -
  have built: "\<exists>ds. length ds = 3 \<and> list_all is_digit ds
            \<and> search_policy_id (page_content doc) = Some (''POL'' @ ds)"
    if "doc \<in> set (get_custom_retriever_function vectorstore (policy_dict_loop documents []) query)"
  proof -
    from retriever_result [OF that] obtain ds where ds: "length ds = 3" "list_all is_digit ds"
      "map_of (policy_dict_loop documents []) (''POL'' @ ds) = Some doc" by blast
    from ds(3) have "(''POL'' @ ds, doc) \<in> set (policy_dict_loop documents [])"
      by (rule map_of_SomeD)
    from loop_entries [OF this] have "search_policy_id (page_content doc) = Some (''POL'' @ ds)"
      by simp
    with ds(1,2) show ?thesis by blast
  qed
  have long: "policy_id \<in> fst ` set (policy_dict_loop documents [])
        \<and> doc \<notin> set (get_custom_retriever_function vectorstore
                          (policy_dict_loop documents []) query)"
    if "doc \<in> set documents" "search_policy_id (page_content doc) = Some policy_id"
      "length policy_id > 6"
  proof
    from that(1,2) show "policy_id \<in> fst ` set (policy_dict_loop documents [])"
      unfolding loop_keys by blast
    show "doc \<notin> set (get_custom_retriever_function vectorstore
                          (policy_dict_loop documents []) query)"
    proof
      assume "doc \<in> set (get_custom_retriever_function vectorstore
                          (policy_dict_loop documents []) query)"
      from built [OF this] that(2) obtain ds where "length ds = 3" "policy_id = ''POL'' @ ds"
        by auto
      with that(3) show False by simp
    qed
  qed
  from retriever_result [of doc vectorstore policy_lookup_dict query] built long
  show ?thesis by blast
qed

theorem returned_documents_have_three_digit_ids_witness:
  "doc_POL1234 \<in> set [doc_POL001, doc_POL1234]
   \<and> search_policy_id (page_content doc_POL1234) = Some ''POL1234''
   \<and> length ''POL1234'' > 6
   \<and> ''POL1234'' \<in> fst ` set (policy_dict_loop [doc_POL001, doc_POL1234] [])
   \<and> doc_POL1234 \<notin> set (get_custom_retriever_function ()
                          (policy_dict_loop [doc_POL001, doc_POL1234] [])
                          ''What is the premium for policy POL1234?'')
   \<and> doc_POL001 \<in> set (get_custom_retriever_function ()
                          (policy_dict_loop [doc_POL001, doc_POL1234] []) ''pol001'')
   \<and> (\<exists>ds. length ds = 3 \<and> list_all is_digit ds
            \<and> search_policy_id (page_content doc_POL001) = Some (''POL'' @ ds))"
proof -
  have a: "doc_POL1234 \<in> set [doc_POL001, doc_POL1234]" by simp
  have b: "search_policy_id (page_content doc_POL1234) = Some ''POL1234''"
    by (rule id_doc_POL1234)
  have c: "length ''POL1234'' > 6" by simp
  have d: "policy_dict_loop [doc_POL001, doc_POL1234] []
           = [(''POL001'', doc_POL001), (''POL1234'', doc_POL1234)]"
    by (simp add: id_doc_POL001 id_doc_POL1234)
  have e: "get_custom_retriever_function ()
             [(''POL001'', doc_POL001), (''POL1234'', doc_POL1234)] ''pol001'' = [doc_POL001]"
    by (simp add: retr text_eval)
  then have f: "doc_POL001 \<in> set (get_custom_retriever_function ()
                          (policy_dict_loop [doc_POL001, doc_POL1234] []) ''pol001'')"
    unfolding d by simp
  note t1 = returned_documents_have_three_digit_ids
    [of doc_POL1234 "()" "[]" "''What is the premium for policy POL1234?''"
        "[doc_POL001, doc_POL1234]" "''POL1234''"]
  note t2 = returned_documents_have_three_digit_ids
    [of doc_POL001 "()" "[]" "''pol001''" "[doc_POL001, doc_POL1234]" "''POL001''"]
  have g: "''POL1234'' \<in> fst ` set (policy_dict_loop [doc_POL001, doc_POL1234] [])
   \<and> doc_POL1234 \<notin> set (get_custom_retriever_function ()
                          (policy_dict_loop [doc_POL001, doc_POL1234] [])
                          ''What is the premium for policy POL1234?'')"
    by (rule mp [OF conjunct2 [OF conjunct2 [OF t1]]]) (intro conjI a b c)
  have h: "\<exists>ds. length ds = 3 \<and> list_all is_digit ds
            \<and> search_policy_id (page_content doc_POL001) = Some (''POL'' @ ds)"
    by (rule mp [OF conjunct1 [OF conjunct2 [OF t2]] f])
  show ?thesis by (intro conjI a b c conjunct1 [OF g] conjunct2 [OF g] f h)
qed

end
